theory Spec2Isabelle
  imports Complex_Main "HOL-Library.Sublist"
begin

section \<open>Data model\<close>

text \<open>
  Timestamps and durations are JavaScript numbers, modelled as \<open>real\<close>. The sums and
  differences that index.js and silence_detector.js compute on them are rounded to the
  nearest double, as JavaScript does (see \<open>jsAdd\<close> and \<open>jsSub\<close> below); comparisons,
  \<open>Math.min\<close> and \<open>Math.max\<close> are exact in JavaScript too. \<open>NaN\<close> and the infinities
  are outside the model. The sampling of thumbnail_generator.js is kept in exact
  arithmetic: what is stated about it is which of the sampled frames is returned.

  A scene segment and an audio (keep) segment are both the object
  \<^verbatim>\<open>{ start, end, duration }\<close>; \<open>end\<close> is reserved in Isabelle, hence the prefix.
\<close>

record segment =
  seg_start :: real
  seg_end :: real
  seg_duration :: real

text \<open>
  A silence interval as detectSilence builds it: \<^verbatim>\<open>{ start, end, duration, type }\<close>,
  where \<open>end\<close> and \<open>duration\<close> are \<open>null\<close> (here \<open>None\<close>) when the stream ends while
  still silent. The constant field \<^verbatim>\<open>type: "silence"\<close> is left out.
\<close>

record silence =
  sil_start :: real
  sil_end :: "real option"
  sil_duration :: "real option"

text \<open>A candidate frame of the thumbnail search: \<^verbatim>\<open>{ timestamp, score }\<close>.\<close>

record frame =
  timestamp :: real
  score :: real

text \<open>
  The external commands index.js builds as shell strings, by their arguments:
  the scene scan (video, threshold), the duration probe (video), the stream-copy trim
  (video, start, duration, output file) and the concat of a manifest (manifest, output file).
\<close>

datatype command =
    SceneScan string real
  | ProbeDuration string
  | Trim string real real string
  | Concat string string

text \<open>
  The exceptions of the modelled functions: the missing input video of detectScenes, the
  \<^verbatim>\<open>Command failed\<close> error of \<open>exec\<close>, the \<^verbatim>\<open>No valid segments found after filtering\<close>
  error of mergeScenes, and the TypeError of reading a property of \<open>undefined\<close>.
\<close>

datatype error =
    VideoNotFound string
  | CommandFailed command
  | NoValidSegments
  | TypeError

text \<open>
  The state outside the program: the paths that exist in the file system, and the number
  of external commands run so far (so that the engine may answer the same command
  differently at different times).
\<close>

record world =
  files :: "string set"
  calls :: nat

text \<open>
  The collaborators outside the repository. \<open>sceneTimes\<close> is the list of \<open>pts_time\<close>
  values parsed from the output of the scene scan, \<open>formatDuration\<close> the number parsed
  from the output of the duration probe (\<open>None\<close>: the process failed); \<open>ffmpeg\<close> runs a
  trim or a concat and gives its success and the file system it leaves behind;
  \<open>clipPath outputDir videoPath n\<close> stands for Node's
  \<^verbatim>\<open>path.join(outputDir, `${path.parse(videoPath).name}_scene_${String(n).padStart(3, "0")}.mp4`)\<close>.
\<close>

record engine =
  sceneTimes :: "world \<Rightarrow> string \<Rightarrow> real \<Rightarrow> real list option"
  formatDuration :: "world \<Rightarrow> string \<Rightarrow> real option"
  ffmpeg :: "world \<Rightarrow> command \<Rightarrow> bool \<times> string set"
  clipPath :: "string \<Rightarrow> string \<Rightarrow> nat \<Rightarrow> string"

text \<open>The object autoEdit returns.\<close>

record autoEditResult =
  originalDuration :: real
  scenesDetected :: nat
  clipsCreated :: nat
  clipsPath :: string
  mergedFile :: string
  sceneTimestamps :: "real list"

section \<open>JavaScript numbers\<close>

text \<open>
  A JavaScript number is an IEEE 754 double, and \<open>+\<close> and \<open>-\<close> give the double nearest
  to the exact result, ties going to the even mantissa. \<open>toDouble\<close> is that rounding on
  the reals: the magnitude is scaled by powers of two until it lies in \<open>[2^52, 2^53)\<close>
  (or, for a subnormal, until the unit is \<open>2^-1074\<close>), rounded to an integer, and scaled
  back. Overflow to \<open>Infinity\<close> and \<open>NaN\<close> are outside the model: a magnitude beyond the
  largest double is rounded as if the exponent had no upper limit.
\<close>

definition halfEven :: "real \<Rightarrow> int" where
  "halfEven y =
     (let f = \<lfloor>y\<rfloor>; r = y - of_int f
      in if r < 1 / 2 then f
         else if 1 / 2 < r then f + 1
         else if even f then f else f + 1)"

function roundDown :: "real \<Rightarrow> real" where
  "roundDown y = (if 2 ^ 53 \<le> y then 2 * roundDown (y / 2) else of_int (halfEven y))"
  by pat_completeness auto

termination
proof (relation "measure (\<lambda>y. nat \<lceil>y\<rceil>)")
  show "wf (measure (\<lambda>y::real. nat \<lceil>y\<rceil>))"
    by simp
next
  fix y :: real
  assume big: "2 ^ 53 \<le> y"
  then have "y / 2 \<le> y - 1"
    by simp
  then have "\<lceil>y / 2\<rceil> \<le> \<lceil>y - 1\<rceil>"
    by (rule ceiling_mono)
  moreover have "0 < \<lceil>y\<rceil>"
    using big by (simp add: ceiling_less_iff less_ceiling_iff)
  ultimately show "(y / 2, y) \<in> measure (\<lambda>y. nat \<lceil>y\<rceil>)"
    by simp
qed

declare roundDown.simps [simp del]

text \<open>\<open>roundUp k y\<close>: at most \<open>k\<close> doublings are left before the subnormal unit.\<close>

fun roundUp :: "nat \<Rightarrow> real \<Rightarrow> real" where
  "roundUp 0 y = of_int (halfEven y)"
| "roundUp (Suc k) y =
     (if y < 2 ^ 52 then roundUp k (2 * y) / 2 else of_int (halfEven y))"

definition roundMag :: "real \<Rightarrow> real" where
  "roundMag y = (if 2 ^ 53 \<le> y then roundDown y else roundUp 1074 y)"

definition toDouble :: "real \<Rightarrow> real" where
  "toDouble x = (if x < 0 then - roundMag (- x) else roundMag x)"

text \<open>The operators \<open>+\<close> and \<open>-\<close> of JavaScript on numbers.\<close>

definition jsAdd :: "real \<Rightarrow> real \<Rightarrow> real" where
  "jsAdd x y = toDouble (x + y)"

definition jsSub :: "real \<Rightarrow> real \<Rightarrow> real" where
  "jsSub x y = toDouble (x - y)"

section \<open>Scene segments (index.js: splitByScenes, mergeScenes)\<close>

text \<open>\<^verbatim>\<open>const allTimestamps = [0, ...timestamps, duration];\<close>\<close>

definition allTimestamps :: "real list \<Rightarrow> real \<Rightarrow> real list" where
  "allTimestamps timestamps duration = 0 # timestamps @ [duration]"

text \<open>
  The three constants both loops compute at index \<open>i\<close>:
  \<^verbatim>\<open>start = allTimestamps[i]; end = allTimestamps[i + 1]; segDuration = end - start\<close>,
  the difference being JavaScript's. The loops only read indices below \<open>length - 1\<close>, so
  both reads are in range.
\<close>

definition segmentAt :: "real list \<Rightarrow> nat \<Rightarrow> segment" where
  "segmentAt ats i =
     (let start = ats ! i;
          endT = ats ! (i + 1);
          segDuration = jsSub endT start
      in \<lparr>seg_start = start, seg_end = endT, seg_duration = segDuration\<rparr>)"

text \<open>
  The index range of \<^verbatim>\<open>for (let i = 0; i < allTimestamps.length - 1; i++)\<close>.
\<close>

definition loopIndices :: "real list \<Rightarrow> nat list" where
  "loopIndices ats = [0..<length ats - 1]"

text \<open>The segments the loops of splitByScenes and mergeScenes go through, in order.\<close>

definition segmentsOf :: "real list \<Rightarrow> segment list" where
  "segmentsOf ats = map (segmentAt ats) (loopIndices ats)"

definition buildSegments :: "real list \<Rightarrow> real \<Rightarrow> segment list" where
  "buildSegments changePoints D = segmentsOf (allTimestamps changePoints D)"

text \<open>
  The body of the filter loop of mergeScenes:
  \<^verbatim>\<open>if (segDuration >= minDuration) validSegments.push({ start, end, duration: segDuration })\<close>.
\<close>

definition pushIfValid :: "real list \<Rightarrow> real \<Rightarrow> segment list \<Rightarrow> nat \<Rightarrow> segment list" where
  "pushIfValid ats minDuration acc i =
     (let s = segmentAt ats i
      in if seg_duration s \<ge> minDuration then acc @ [s] else acc)"

definition validSegments :: "real list \<Rightarrow> real \<Rightarrow> segment list" where
  "validSegments ats minDuration = foldl (pushIfValid ats minDuration) [] (loopIndices ats)"

section \<open>Silence intervals and their complement (silence_detector.js)\<close>

text \<open>
  The pairing loop of detectSilence, over the parsed \<open>silence_start\<close> and \<open>silence_end\<close>
  values: \<^verbatim>\<open>end = silenceEnds[i] || null; duration = end ? end - start : null\<close>.
  An index past the end of \<open>silenceEnds\<close> reads \<open>undefined\<close>, and \<open>0\<close> is falsy too.
\<close>

definition silenceAt :: "real list \<Rightarrow> real list \<Rightarrow> nat \<Rightarrow> silence" where
  "silenceAt silenceStarts silenceEnds i =
     (let start = silenceStarts ! i;
          endT = (if i < length silenceEnds \<and> silenceEnds ! i \<noteq> 0
                  then Some (silenceEnds ! i) else None);
          duration = (case endT of Some e \<Rightarrow> Some (jsSub e start) | None \<Rightarrow> None)
      in \<lparr>sil_start = start, sil_end = endT, sil_duration = duration\<rparr>)"

definition pairSilences :: "real list \<Rightarrow> real list \<Rightarrow> silence list" where
  "pairSilences silenceStarts silenceEnds =
     map (silenceAt silenceStarts silenceEnds) [0..<length silenceStarts]"

text \<open>
  JavaScript's ToNumber on a number or \<open>null\<close>: \<open>Math.min(x, null)\<close> and \<open>null - x\<close>
  read \<open>null\<close> as \<open>0\<close>.
\<close>

definition toNumber :: "real option \<Rightarrow> real" where
  "toNumber v = (case v of Some x \<Rightarrow> x | None \<Rightarrow> 0)"

text \<open>
  One round of the loop \<^verbatim>\<open>for (const silence of silenceSegments)\<close> of removeSilence,
  on the pair (audioSegments, currentTime):
  \<^verbatim>\<open>end: Math.min(silence.start + padding, silence.end)\<close>,
  \<^verbatim>\<open>duration: silence.start - currentTime + padding\<close> (the difference first, then the sum),
  \<^verbatim>\<open>currentTime = Math.max(silence.end - padding, silence.start)\<close>.
\<close>

definition keepStep :: "real \<Rightarrow> segment list \<times> real \<Rightarrow> silence \<Rightarrow> segment list \<times> real" where
  "keepStep padding st silence =
     (case st of (audioSegs, currentTime) \<Rightarrow>
        (if sil_start silence > currentTime
         then audioSegs @
              [\<lparr>seg_start = currentTime,
                seg_end = min (jsAdd (sil_start silence) padding) (toNumber (sil_end silence)),
                seg_duration = jsAdd (jsSub (sil_start silence) currentTime) padding\<rparr>]
         else audioSegs,
         max (jsSub (toNumber (sil_end silence)) padding) (sil_start silence)))"

text \<open>
  Step 3 of removeSilence: the walk from \<open>currentTime = 0\<close>, then the last interval up
  to \<open>totalDuration\<close> when \<open>currentTime < totalDuration\<close>.
\<close>

definition audioSegments :: "silence list \<Rightarrow> real \<Rightarrow> real \<Rightarrow> segment list" where
  "audioSegments silenceSegments totalDuration padding =
     (case foldl (keepStep padding) ([], 0) silenceSegments of
        (audioSegs, currentTime) \<Rightarrow>
          if currentTime < totalDuration
          then audioSegs @
               [\<lparr>seg_start = currentTime, seg_end = totalDuration,
                 seg_duration = jsSub totalDuration currentTime\<rparr>]
          else audioSegs)"

text \<open>
  Properties the statements below speak about. A silence is closed when its end is
  known and not before its start; a list of closed silences is time-ordered and disjoint
  when each one ends no later than every later one starts.
\<close>

definition closedSilence :: "silence \<Rightarrow> bool" where
  "closedSilence s = (case sil_end s of Some e \<Rightarrow> sil_start s \<le> e | None \<Rightarrow> False)"

definition silencesOrdered :: "silence list \<Rightarrow> bool" where
  "silencesOrdered ss =
     (list_all closedSilence ss
      \<and> sorted_wrt (\<lambda>a b. toNumber (sil_end a) \<le> sil_start b) ss)"

text \<open>Each interval starts at or after the end of the one emitted before it.\<close>

definition keepsChained :: "segment list \<Rightarrow> bool" where
  "keepsChained ks = successively (\<lambda>a b. seg_end a \<le> seg_start b) ks"

section \<open>Best thumbnail frame (thumbnail_generator.js)\<close>

text \<open>
  The sampling loop of findBestThumbnailFrame. \<open>duration\<close> is \<open>info.duration\<close> as
  getVideoInfo reports it, and \<open>qualityFn timestamp\<close> stands for the call
  \<^verbatim>\<open>evaluateFrameQuality(videoPath, timestamp)\<close>, which asks the external probe again.
  With \<open>candidates = 0\<close> the loop body never runs, so the division is never used.
\<close>

definition sampleFrames :: "real \<Rightarrow> nat \<Rightarrow> (real \<Rightarrow> real) \<Rightarrow> frame list" where
  "sampleFrames duration candidates qualityFn =
     (let startTime = duration * (1 / 10);
          endTime = duration * (9 / 10);
          interval = (endTime - startTime) / real candidates
      in map (\<lambda>i. let ts = startTime + real i * interval
                  in \<lparr>timestamp = ts, score = qualityFn ts\<rparr>)
             [0..<candidates])"

text \<open>
  \<^verbatim>\<open>frames.sort((a, b) => b.score - a.score)\<close>: Array.prototype.sort is stable
  (ECMAScript 2019; the README asks for Node.js 14 or later), and on real scores the
  comparator is the descending order of the score, so the result is the stable sort by
  the negated score.
\<close>

definition sortByScore :: "frame list \<Rightarrow> frame list" where
  "sortByScore frames = sort_key (\<lambda>f. - score f) frames"

text \<open>
  \<^verbatim>\<open>const bestFrame = frames[0]; ... return bestFrame.timestamp\<close>: with no frame,
  \<open>frames[0]\<close> is \<open>undefined\<close> and reading its timestamp throws a TypeError.
\<close>

definition findBestThumbnailFrame :: "real \<Rightarrow> nat \<Rightarrow> (real \<Rightarrow> real) \<Rightarrow> error + real" where
  "findBestThumbnailFrame duration candidates qualityFn =
     (case sortByScore (sampleFrames duration candidates qualityFn) of
        [] \<Rightarrow> Inl TypeError
      | bestFrame # _ \<Rightarrow> Inr (timestamp bestFrame))"

text \<open>The \<open>i\<close>-th sampled timestamp, as the claim writes it.\<close>

definition candidateTime :: "real \<Rightarrow> nat \<Rightarrow> nat \<Rightarrow> real" where
  "candidateTime D candidates i =
     (1 / 10) * D + real i * (((9 / 10) * D - (1 / 10) * D) / real candidates)"

section \<open>Workflows over the external engine (index.js)\<close>

text \<open>
  A workflow takes the world and returns its result or the exception it throws, together
  with the world it leaves: an exception does not undo what was written before it.

  \<open>exec\<close> runs a trim or concat command: \<^verbatim>\<open>execSync\<close> inside a try, any failure
  rethrown as \<^verbatim>\<open>Command failed\<close>.
\<close>

definition exec :: "engine \<Rightarrow> command \<Rightarrow> world \<Rightarrow> (error + unit) \<times> world" where
  "exec eng cmd w =
     (case ffmpeg eng w cmd of
        (ok, fs) \<Rightarrow>
          (if ok then Inr () else Inl (CommandFailed cmd),
           \<lparr>files = fs, calls = calls w + 1\<rparr>))"

text \<open>detectScenes: the existence check, then the scan, whose output is only read.\<close>

definition detectScenes ::
  "engine \<Rightarrow> string \<Rightarrow> real \<Rightarrow> world \<Rightarrow> (error + real list) \<times> world" where
  "detectScenes eng videoPath threshold w =
     (if videoPath \<notin> files w then (Inl (VideoNotFound videoPath), w)
      else case sceneTimes eng w videoPath threshold of
             None \<Rightarrow> (Inl (CommandFailed (SceneScan videoPath threshold)),
                      w\<lparr>calls := calls w + 1\<rparr>)
           | Some timestamps \<Rightarrow> (Inr timestamps, w\<lparr>calls := calls w + 1\<rparr>))"

definition getDuration :: "engine \<Rightarrow> string \<Rightarrow> world \<Rightarrow> (error + real) \<times> world" where
  "getDuration eng videoPath w =
     (case formatDuration eng w videoPath of
        None \<Rightarrow> (Inl (CommandFailed (ProbeDuration videoPath)), w\<lparr>calls := calls w + 1\<rparr>)
      | Some d \<Rightarrow> (Inr d, w\<lparr>calls := calls w + 1\<rparr>))"

text \<open>
  The loop of splitByScenes over the indices still to do: trim segment \<open>i\<close> into the
  clip numbered \<open>i + 1\<close>, push its path; a failed trim ends the loop with its exception.
\<close>

fun splitLoop ::
  "engine \<Rightarrow> string \<Rightarrow> string \<Rightarrow> real list \<Rightarrow> nat list \<Rightarrow> string list \<Rightarrow> world
     \<Rightarrow> (error + string list) \<times> world" where
  "splitLoop eng videoPath outputDir ats [] outputs w = (Inr outputs, w)"
| "splitLoop eng videoPath outputDir ats (i # rest) outputs w =
     (let seg = segmentAt ats i;
          outputFile = clipPath eng outputDir videoPath (i + 1)
      in case exec eng (Trim videoPath (seg_start seg) (seg_duration seg) outputFile) w of
           (Inl e, w') \<Rightarrow> (Inl e, w')
         | (Inr u, w') \<Rightarrow>
             splitLoop eng videoPath outputDir ats rest (outputs @ [outputFile]) w')"

text \<open>mkdirSync is taken to succeed.\<close>

definition splitByScenes ::
  "engine \<Rightarrow> string \<Rightarrow> real list \<Rightarrow> string \<Rightarrow> world \<Rightarrow> (error + string list) \<times> world" where
  "splitByScenes eng videoPath timestamps outputDir w =
     (let w0 = (if outputDir \<notin> files w then w\<lparr>files := insert outputDir (files w)\<rparr> else w)
      in case getDuration eng videoPath w0 of
           (Inl e, w1) \<Rightarrow> (Inl e, w1)
         | (Inr duration, w1) \<Rightarrow>
             splitLoop eng videoPath outputDir (allTimestamps timestamps duration)
               (loopIndices (allTimestamps timestamps duration)) [] w1)"

text \<open>Decimal digits of a natural number, as a template literal prints an index.\<close>

fun decimal :: "nat \<Rightarrow> string" where
  "decimal n =
     (if n < 10 then [''0123456789'' ! n]
      else decimal (n div 10) @ [''0123456789'' ! (n mod 10)])"

declare decimal.simps [simp del]

text \<open>\<^verbatim>\<open>`temp_scene_${i}.mp4`\<close>\<close>

definition tempFile :: "nat \<Rightarrow> string" where
  "tempFile i = ''temp_scene_'' @ decimal i @ ''.mp4''"

text \<open>
  \<^verbatim>\<open>validSegments.forEach((seg, i) => ...)\<close> of mergeScenes, over the (index, segment)
  pairs still to do: trim the segment into its temporary file, push the file name.
\<close>

fun extractLoop ::
  "engine \<Rightarrow> string \<Rightarrow> (nat \<times> segment) list \<Rightarrow> string list \<Rightarrow> world
     \<Rightarrow> (error + string list) \<times> world" where
  "extractLoop eng videoPath [] tempFiles w = (Inr tempFiles, w)"
| "extractLoop eng videoPath ((i, seg) # rest) tempFiles w =
     (case exec eng (Trim videoPath (seg_start seg) (seg_duration seg) (tempFile i)) w of
        (Inl e, w') \<Rightarrow> (Inl e, w')
      | (Inr u, w') \<Rightarrow> extractLoop eng videoPath rest (tempFiles @ [tempFile i]) w')"

text \<open>\<^verbatim>\<open>if (fs.existsSync(f)) fs.unlinkSync(f)\<close>\<close>

definition unlinkIfExists :: "world \<Rightarrow> string \<Rightarrow> world" where
  "unlinkIfExists w f = (if f \<in> files w then w\<lparr>files := files w - {f}\<rparr> else w)"

text \<open>\<^verbatim>\<open>fs.writeFileSync(f, ...)\<close>, taken to succeed; only the existence of the file is kept.\<close>

definition writeFile :: "world \<Rightarrow> string \<Rightarrow> world" where
  "writeFile w f = w\<lparr>files := insert f (files w)\<rparr>"

definition mergeList :: string where
  "mergeList = ''merge_list.txt''"

definition mergeScenes ::
  "engine \<Rightarrow> string \<Rightarrow> real list \<Rightarrow> real \<Rightarrow> string \<Rightarrow> world \<Rightarrow> (error + string) \<times> world" where
  "mergeScenes eng videoPath timestamps minDuration outputFile w =
     (case getDuration eng videoPath w of
        (Inl e, w1) \<Rightarrow> (Inl e, w1)
      | (Inr duration, w1) \<Rightarrow>
          (let valid = validSegments (allTimestamps timestamps duration) minDuration
           in if length valid = 0 then (Inl NoValidSegments, w1)
              else case extractLoop eng videoPath (enumerate 0 valid) [] w1 of
                     (Inl e, w2) \<Rightarrow> (Inl e, w2)
                   | (Inr tempFiles, w2) \<Rightarrow>
                       (case exec eng (Concat mergeList outputFile) (writeFile w2 mergeList) of
                          (Inl e, w3) \<Rightarrow> (Inl e, w3)
                        | (Inr u, w3) \<Rightarrow>
                            (Inr outputFile,
                             unlinkIfExists (foldl unlinkIfExists w3 tempFiles) mergeList))))"

text \<open>
  autoEdit: probe, detect (once more at 0.15 when nothing was found), split into
  \<open>auto_scenes\<close>, merge into \<open>auto_merged.mp4\<close>, and report. The console output is left out.
\<close>

definition autoEdit ::
  "engine \<Rightarrow> string \<Rightarrow> real \<Rightarrow> real \<Rightarrow> world \<Rightarrow> (error + autoEditResult) \<times> world" where
  "autoEdit eng videoPath minDuration threshold w =
     (case getDuration eng videoPath w of
        (Inl e, w1) \<Rightarrow> (Inl e, w1)
      | (Inr duration, w1) \<Rightarrow>
     (case detectScenes eng videoPath threshold w1 of
        (Inl e, w2) \<Rightarrow> (Inl e, w2)
      | (Inr found, w2) \<Rightarrow>
     (case (if length found = 0 then detectScenes eng videoPath (15 / 100) w2
            else (Inr found, w2)) of
        (Inl e, w3) \<Rightarrow> (Inl e, w3)
      | (Inr timestamps, w3) \<Rightarrow>
     (case splitByScenes eng videoPath timestamps ''auto_scenes'' w3 of
        (Inl e, w4) \<Rightarrow> (Inl e, w4)
      | (Inr clips, w4) \<Rightarrow>
     (case mergeScenes eng videoPath timestamps minDuration ''auto_merged.mp4'' w4 of
        (Inl e, w5) \<Rightarrow> (Inl e, w5)
      | (Inr finalFile, w5) \<Rightarrow>
          (Inr \<lparr>originalDuration = duration,
                scenesDetected = length timestamps,
                clipsCreated = length clips,
                clipsPath = ''auto_scenes'',
                mergedFile = finalFile,
                sceneTimestamps = timestamps\<rparr>, w5))))))"

text \<open>
  A stand-in engine for the scenario of a 35.05 s video with scene changes at 15.2 s and
  30 s: every trim and concat succeeds and leaves its output file. In \<open>brokenConcat\<close> the
  trims succeed and the concat exits non-zero, writing nothing.
\<close>

definition outputOf :: "command \<Rightarrow> string set" where
  "outputOf cmd =
     (case cmd of Trim v s d out \<Rightarrow> {out} | Concat m out \<Rightarrow> {out} | _ \<Rightarrow> {})"

definition demoEngine :: engine where
  "demoEngine =
     \<lparr>sceneTimes = (\<lambda>w v th. Some [76 / 5, 30]),
      formatDuration = (\<lambda>w v. Some (701 / 20)),
      ffmpeg = (\<lambda>w cmd. (True, files w \<union> outputOf cmd)),
      clipPath = (\<lambda>dir v n. dir @ ''/scene_'' @ decimal n @ ''.mp4'')\<rparr>"

definition brokenConcat :: engine where
  "brokenConcat =
     demoEngine\<lparr>ffmpeg :=
       (\<lambda>w cmd. case cmd of Concat m out \<Rightarrow> (False, files w)
                          | _ \<Rightarrow> (True, files w \<union> outputOf cmd))\<rparr>"

definition demoWorld :: world where
  "demoWorld = \<lparr>files = {''video.mp4''}, calls = 0\<rparr>"

section \<open>Rounding to the nearest double\<close>

lemma halfEven_error: "\<bar>of_int (halfEven y) - y\<bar> \<le> 1 / 2"
  unfolding halfEven_def Let_def by (auto simp: abs_if) linarith+

lemma roundDown_error: "2 ^ 52 \<le> y \<Longrightarrow> \<bar>roundDown y - y\<bar> \<le> y / 2 ^ 53"
proof (induction y rule: roundDown.induct)
  case (1 y)
  show ?case
  proof (cases "2 ^ 53 \<le> y")
    case True
    then have "2 ^ 52 \<le> y / 2" by simp
    define E where "E = y / 2 ^ 53"
    have half: "y / 2 / 2 ^ 53 = E / 2"
      by (simp add: E_def)
    from "1.IH" [OF True \<open>2 ^ 52 \<le> y / 2\<close>]
    have "\<bar>roundDown (y / 2) - y / 2\<bar> \<le> E / 2"
      by (simp only: half)
    then have "\<bar>2 * roundDown (y / 2) - y\<bar> \<le> E"
      by linarith
    then have "\<bar>2 * roundDown (y / 2) - y\<bar> \<le> y / 2 ^ 53"
      by (simp only: E_def)
    with True show ?thesis
      by (simp add: roundDown.simps [of y])
  next
    case False
    have "\<bar>of_int (halfEven y) - y\<bar> \<le> 1 / 2" by (rule halfEven_error)
    also have "1 / 2 \<le> y / 2 ^ 53" using "1.prems" by simp
    finally show ?thesis using False
      by (simp add: roundDown.simps [of y])
  qed
qed

lemma roundUp_error: "\<bar>roundUp k y - y\<bar> \<le> \<bar>y\<bar> / 2 ^ 53 + 1 / 2 ^ (k + 1)"
proof (induction k arbitrary: y)
  case 0
  define E where "E = \<bar>y\<bar> / 2 ^ 53"
  have "\<bar>of_int (halfEven y) - y\<bar> \<le> 1 / 2" by (rule halfEven_error)
  moreover have "0 \<le> E" by (simp add: E_def)
  ultimately have "\<bar>of_int (halfEven y) - y\<bar> \<le> E + 1 / 2" by linarith
  then show ?case by (simp add: E_def)
next
  case (Suc k)
  show ?case
  proof (cases "y < 2 ^ 52")
    case True
    from Suc.IH [of "2 * y"]
    have "\<bar>roundUp k (2 * y) - 2 * y\<bar> \<le> \<bar>2 * y\<bar> / 2 ^ 53 + 1 / 2 ^ (k + 1)" .
    then have "\<bar>roundUp k (2 * y) / 2 - y\<bar> \<le> \<bar>y\<bar> / 2 ^ 53 + 1 / 2 ^ (Suc k + 1)"
      by (simp add: abs_le_iff abs_mult field_simps)
    with True show ?thesis by simp
  next
    case False
    have "\<bar>of_int (halfEven y) - y\<bar> \<le> 1 / 2" by (rule halfEven_error)
    also have "1 / 2 \<le> \<bar>y\<bar> / 2 ^ 53" using False by simp
    also have "\<dots> \<le> \<bar>y\<bar> / 2 ^ 53 + 1 / 2 ^ (Suc k + 1)" by simp
    finally show ?thesis using False by simp
  qed
qed

lemma roundMag_error: "0 \<le> y \<Longrightarrow> \<bar>roundMag y - y\<bar> \<le> y / 2 ^ 53 + 1 / 2 ^ 1075"
proof (cases "2 ^ 53 \<le> y")
  case True
  then have "2 ^ 52 \<le> y" by simp
  from roundDown_error [OF this] True show ?thesis
    by (simp add: roundMag_def add_increasing2)
next
  case False
  assume "0 \<le> y"
  with roundUp_error [of 1074 y] False show ?thesis
    by (simp add: roundMag_def)
qed

lemma toDouble_error: "\<bar>toDouble x - x\<bar> \<le> \<bar>x\<bar> / 2 ^ 53 + 1 / 2 ^ 1075"
proof (cases "x < 0")
  case True
  then have "0 \<le> - x" by simp
  from roundMag_error [OF this] True show ?thesis
    by (simp add: toDouble_def abs_if split: if_splits)
next
  case False
  then have "0 \<le> x" by simp
  from roundMag_error [OF this] False show ?thesis
    by (simp add: toDouble_def)
qed

lemma roundUp_scaled:
  "j \<le> k \<Longrightarrow> 2 ^ 52 \<le> y * 2 ^ j \<Longrightarrow> y * 2 ^ j < 2 ^ 53 \<Longrightarrow>
     roundUp k y = of_int (halfEven (y * 2 ^ j)) / 2 ^ j"
proof (induction j arbitrary: k y)
  case 0
  then show ?case by (cases k) simp_all
next
  case (Suc j)
  from Suc.prems(1) obtain k' where k: "k = Suc k'" and jk: "j \<le> k'"
    by (cases k) simp_all
  have "y * 2 ^ Suc j < 2 ^ 53" by (rule Suc.prems(3))
  moreover have "y * 2 \<le> y * 2 ^ Suc j \<or> y < 0"
    by (cases "y < 0") (simp_all add: mult_left_mono)
  ultimately have small: "y < 2 ^ 52"
    by auto
  have "roundUp k' (2 * y) = of_int (halfEven (2 * y * 2 ^ j)) / 2 ^ j"
    using Suc.prems(2,3) by (intro Suc.IH [OF jk]) (simp_all add: mult.assoc mult.left_commute)
  with small show ?case
    by (simp add: k mult.assoc mult.left_commute)
qed

lemma toDouble_scaled:
  assumes "j \<le> 1074" and "2 ^ 52 \<le> x * 2 ^ j" and "x * 2 ^ j < 2 ^ 53"
  shows "toDouble x = of_int (halfEven (x * 2 ^ j)) / 2 ^ j"
proof -
  have pos: "0 < x"
  proof (rule ccontr)
    assume "\<not> 0 < x"
    then have "x * 2 ^ j \<le> 0" by (simp add: mult_le_0_iff)
    with assms(2) show False by simp
  qed
  have "x \<le> x * 2 ^ j"
    using pos by simp
  with assms(3) have "\<not> 2 ^ 53 \<le> x" by simp
  with pos roundUp_scaled [OF assms] show ?thesis
    by (simp add: toDouble_def roundMag_def)
qed

lemma roundUp_zero: "roundUp k 0 = 0"
  by (induction k) (simp_all add: halfEven_def)

lemma toDouble_zero: "toDouble 0 = 0"
  by (simp add: toDouble_def roundMag_def roundUp_zero)

lemma toDouble_minus: "toDouble (- x) = - toDouble x"
  by (cases "x = 0") (auto simp: toDouble_def toDouble_zero roundMag_def roundUp_zero)

text \<open>
  Evaluation: a positive \<open>x\<close> with \<open>x * 2^j\<close> in \<open>[2^52, 2^53)\<close> has the mantissa
  \<open>halfEven (x * 2^j)\<close> at the exponent \<open>-j\<close>. The instances cover the binades from
  \<open>2^-6\<close> to \<open>2^8\<close>.
\<close>

lemmas double_eval =
  toDouble_zero toDouble_minus halfEven_def
  toDouble_scaled [where j = 45] toDouble_scaled [where j = 46] toDouble_scaled [where j = 47]
  toDouble_scaled [where j = 48] toDouble_scaled [where j = 49] toDouble_scaled [where j = 50]
  toDouble_scaled [where j = 51] toDouble_scaled [where j = 52] toDouble_scaled [where j = 53]
  toDouble_scaled [where j = 54] toDouble_scaled [where j = 55] toDouble_scaled [where j = 56]
  toDouble_scaled [where j = 57] toDouble_scaled [where j = 58]

text \<open>The doubles written \<open>0.1\<close>, \<open>0.3\<close>, \<open>0.6\<close>, \<open>1.1\<close> and \<open>1.7\<close>.\<close>

lemma double_literals:
  "toDouble (1 / 10) = 3602879701896397 / 2 ^ 55"
  "toDouble (3 / 10) = 5404319552844595 / 2 ^ 54"
  "toDouble (3 / 5) = 5404319552844595 / 2 ^ 53"
  "toDouble (11 / 10) = 2476979795053773 / 2 ^ 51"
  "toDouble (17 / 10) = 7656119366529843 / 2 ^ 52"
  by (simp_all add: double_eval)

section \<open>Segment construction\<close>

lemma length_segmentsOf: "length (segmentsOf ats) = length ats - 1"
  by (simp add: segmentsOf_def loopIndices_def)

lemma nth_segmentsOf:
  "i < length ats - 1 \<Longrightarrow> segmentsOf ats ! i = segmentAt ats i"
  by (simp add: segmentsOf_def loopIndices_def)

lemma segmentsOf_Cons2:
  "segmentsOf (a # b # ats) =
     \<lparr>seg_start = a, seg_end = b, seg_duration = jsSub b a\<rparr> # segmentsOf (b # ats)"
proof -
  have "[0..<Suc (length ats)] = 0 # map Suc [0..<length ats]"
    by (simp add: upt_conv_Cons map_Suc_upt del: upt_Suc)
  then show ?thesis
    by (simp add: segmentsOf_def loopIndices_def segmentAt_def Let_def del: upt_Suc)
qed

lemma segmentsOf_single: "segmentsOf [a] = []"
  by (simp add: segmentsOf_def loopIndices_def)

text \<open>The exact lengths \<open>end - start\<close> telescope.\<close>

lemma sum_lengths_telescope:
  "sum_list (map (\<lambda>s. seg_end s - seg_start s) (segmentsOf (a # ats))) = last (a # ats) - a"
proof (induction ats arbitrary: a)
  case Nil
  show ?case by (simp add: segmentsOf_single)
next
  case (Cons b ats)
  have "sum_list (map (\<lambda>s. seg_end s - seg_start s) (segmentsOf (a # b # ats)))
          = (b - a) + sum_list (map (\<lambda>s. seg_end s - seg_start s) (segmentsOf (b # ats)))"
    by (simp add: segmentsOf_Cons2)
  also have "\<dots> = (b - a) + (last (b # ats) - b)"
    by (simp only: Cons.IH)
  finally show ?case by simp
qed

text \<open>
  The stored durations are rounded differences: over increasing boundaries their sum is
  the total length up to one relative rounding error of the total and one subnormal unit
  per segment.
\<close>

lemma sum_durations_error:
  "sorted_wrt (<) (a # ats) \<Longrightarrow>
     \<bar>sum_list (map seg_duration (segmentsOf (a # ats))) - (last (a # ats) - a)\<bar>
       \<le> (last (a # ats) - a) / 2 ^ 53 + real (length ats) * (1 / 2 ^ 1075)"
proof (induction ats arbitrary: a)
  case Nil
  show ?case by (simp add: segmentsOf_single)
next
  case (Cons b ats)
  define c :: real where "c = 1 / 2 ^ 1075"
  define L where "L = last (b # ats)"
  define S where "S = sum_list (map seg_duration (segmentsOf (b # ats)))"
  from Cons.prems have ab: "a < b" and rest: "sorted_wrt (<) (b # ats)"
    by simp_all
  from Cons.IH [OF rest]
  have ih: "\<bar>S - (L - b)\<bar> \<le> (L - b) / 2 ^ 53 + real (length ats) * c"
    by (simp only: S_def L_def c_def)
  have "\<bar>toDouble (b - a) - (b - a)\<bar> \<le> \<bar>b - a\<bar> / 2 ^ 53 + 1 / 2 ^ 1075"
    by (rule toDouble_error)
  with ab have first: "\<bar>jsSub b a - (b - a)\<bar> \<le> (b - a) / 2 ^ 53 + c"
    by (simp add: jsSub_def c_def)
  have split: "(L - a) / 2 ^ 53 = (L - b) / (2 ^ 53 :: real) + (b - a) / 2 ^ 53"
    by (simp add: add_divide_distrib [symmetric])
  have count: "real (length (b # ats)) * c = real (length ats) * c + c"
    by (simp add: algebra_simps)
  have "\<bar>(jsSub b a + S) - (L - a)\<bar> \<le> \<bar>jsSub b a - (b - a)\<bar> + \<bar>S - (L - b)\<bar>"
    by linarith
  also have "\<dots> \<le> ((b - a) / 2 ^ 53 + c) + ((L - b) / 2 ^ 53 + real (length ats) * c)"
    using first ih by (rule add_mono)
  also have "\<dots> = (L - a) / 2 ^ 53 + real (length (b # ats)) * c"
    by (simp only: split count)
  finally have "\<bar>(jsSub b a + S) - (L - a)\<bar> \<le> (L - a) / 2 ^ 53 + real (length (b # ats)) * c" .
  moreover have "sum_list (map seg_duration (segmentsOf (a # b # ats))) = jsSub b a + S"
    by (simp add: segmentsOf_Cons2 S_def)
  moreover have "last (a # b # ats) = L"
    by (simp add: L_def)
  ultimately show ?case
    by (simp only: c_def)
qed

lemma segmentsOf_duration:
  "s \<in> set (segmentsOf ats) \<Longrightarrow> seg_duration s = toDouble (seg_end s - seg_start s)"
  by (auto simp: segmentsOf_def segmentAt_def Let_def jsSub_def)

lemma segmentsOf_increasing:
  "sorted_wrt (<) ats \<Longrightarrow> s \<in> set (segmentsOf ats) \<Longrightarrow> seg_start s < seg_end s"
proof (induction ats rule: induct_list012)
  case 1
  then show ?case by (simp add: segmentsOf_def loopIndices_def)
next
  case (2 a)
  then show ?case by (simp add: segmentsOf_single)
next
  case (3 a b ats)
  then show ?case by (auto simp: segmentsOf_Cons2)
qed

lemma segmentsOf_contiguous:
  assumes "i + 1 < length (segmentsOf ats)"
  shows "seg_start (segmentsOf ats ! (i + 1)) = seg_end (segmentsOf ats ! i)"
proof -
  from assms have "i + 1 < length ats - 1" and "i < length ats - 1"
    by (simp_all add: length_segmentsOf)
  then show ?thesis
    by (simp add: nth_segmentsOf segmentAt_def Let_def)
qed

lemma segmentsOf_first:
  "seg_start (hd (segmentsOf (a # b # ats))) = a"
  by (simp add: segmentsOf_Cons2)

lemma segmentsOf_last:
  assumes "2 \<le> length ats"
  shows "seg_end (last (segmentsOf ats)) = last ats"
proof -
  from assms have ne: "segmentsOf ats \<noteq> []"
    using length_segmentsOf [of ats] by auto
  have "last (segmentsOf ats) = segmentsOf ats ! (length ats - 2)"
    using ne by (simp add: last_conv_nth length_segmentsOf diff_diff_add numeral_2_eq_2)
  also have "\<dots> = segmentAt ats (length ats - 2)"
    using assms by (simp add: nth_segmentsOf)
  finally have "seg_end (last (segmentsOf ats)) = ats ! (length ats - 2 + 1)"
    by (simp add: segmentAt_def Let_def)
  moreover have "length ats - 2 + 1 = length ats - 1"
    using assms by simp
  moreover have "ats \<noteq> []"
    using assms by auto
  ultimately show ?thesis
    by (simp add: last_conv_nth)
qed

lemma allTimestamps_sorted:
  assumes "sorted_wrt (<) changePoints" and "\<forall>t\<in>set changePoints. 0 < t \<and> t < D" and "0 < D"
  shows "sorted_wrt (<) (allTimestamps changePoints D)"
  using assms by (auto simp: allTimestamps_def sorted_wrt_append)

text \<open>
  Claim C1, as amended. For strictly increasing change points inside \<open>(0, D)\<close>, the
  boundary list \<open>[0, changePoints..., D]\<close> gives one segment more than there are change
  points; the first segment starts at 0, the last ends at \<open>D\<close>, every segment starts where
  its predecessor ends, and the lengths \<open>end - start\<close> add up to \<open>D\<close>. Each stored
  duration is \<open>end - start\<close> rounded to the nearest double, so the stored durations add
  up to \<open>D\<close> only up to rounding: for \<open>D > 0\<close> their sum differs from \<open>D\<close> by at most
  \<open>D / 2^53\<close> and one subnormal half-unit \<open>2^-1075\<close> per segment, and every segment has
  \<open>start < end\<close>. With no change point the result is the single segment from 0 to \<open>D\<close>.
\<close>

theorem buildSegments_contiguous_cover:
  assumes "sorted_wrt (<) changePoints"
    and "\<forall>t\<in>set changePoints. 0 < t \<and> t < D"
  shows "length (buildSegments changePoints D) = length changePoints + 1
    \<and> seg_start (hd (buildSegments changePoints D)) = 0
    \<and> seg_end (last (buildSegments changePoints D)) = D
    \<and> (\<forall>i. i + 1 < length (buildSegments changePoints D) \<longrightarrow>
          seg_start (buildSegments changePoints D ! (i + 1))
            = seg_end (buildSegments changePoints D ! i))
    \<and> sum_list (map (\<lambda>s. seg_end s - seg_start s) (buildSegments changePoints D)) = D
    \<and> (\<forall>s\<in>set (buildSegments changePoints D).
          seg_duration s = toDouble (seg_end s - seg_start s))
    \<and> (0 < D \<longrightarrow>
          \<bar>sum_list (map seg_duration (buildSegments changePoints D)) - D\<bar>
            \<le> D / 2 ^ 53 + real (length changePoints + 1) * (1 / 2 ^ 1075))
    \<and> (0 < D \<longrightarrow> (\<forall>s\<in>set (buildSegments changePoints D). seg_start s < seg_end s))
    \<and> buildSegments [] D = [\<lparr>seg_start = 0, seg_end = D, seg_duration = toDouble D\<rparr>]"
proof -
  let ?ats = "allTimestamps changePoints D"
  have len: "length (buildSegments changePoints D) = length changePoints + 1"
    by (simp add: buildSegments_def length_segmentsOf allTimestamps_def)
  have first: "seg_start (hd (buildSegments changePoints D)) = 0"
    by (cases changePoints) (simp_all add: buildSegments_def allTimestamps_def segmentsOf_first)
  have "2 \<le> length ?ats"
    by (simp add: allTimestamps_def)
  then have "seg_end (last (segmentsOf ?ats)) = last ?ats"
    by (rule segmentsOf_last)
  then have lastD: "seg_end (last (buildSegments changePoints D)) = D"
    by (simp add: buildSegments_def allTimestamps_def)
  have contig: "\<forall>i. i + 1 < length (buildSegments changePoints D) \<longrightarrow>
          seg_start (buildSegments changePoints D ! (i + 1))
            = seg_end (buildSegments changePoints D ! i)"
    unfolding buildSegments_def using segmentsOf_contiguous by blast
  have "sum_list (map (\<lambda>s. seg_end s - seg_start s) (segmentsOf (0 # changePoints @ [D])))
          = last (0 # changePoints @ [D]) - 0"
    by (rule sum_lengths_telescope)
  then have total: "sum_list (map (\<lambda>s. seg_end s - seg_start s) (buildSegments changePoints D)) = D"
    by (simp add: buildSegments_def allTimestamps_def)
  have dur: "\<forall>s\<in>set (buildSegments changePoints D).
          seg_duration s = toDouble (seg_end s - seg_start s)"
    unfolding buildSegments_def using segmentsOf_duration by blast
  have near: "\<bar>sum_list (map seg_duration (buildSegments changePoints D)) - D\<bar>
            \<le> D / 2 ^ 53 + real (length changePoints + 1) * (1 / 2 ^ 1075)" if "0 < D"
  proof -
    from allTimestamps_sorted [OF assms that]
    have "sorted_wrt (<) (0 # changePoints @ [D])"
      by (simp only: allTimestamps_def)
    from sum_durations_error [OF this] show ?thesis
      by (simp add: buildSegments_def allTimestamps_def)
  qed
  have pos: "0 < D \<longrightarrow> (\<forall>s\<in>set (buildSegments changePoints D). seg_start s < seg_end s)"
    unfolding buildSegments_def
    using allTimestamps_sorted [OF assms] segmentsOf_increasing by blast
  have empty: "buildSegments [] D = [\<lparr>seg_start = 0, seg_end = D, seg_duration = toDouble D\<rparr>]"
    by (simp add: buildSegments_def allTimestamps_def segmentsOf_Cons2 segmentsOf_single jsSub_def)
  from len first lastD contig total dur near pos empty show ?thesis
    by blast
qed

theorem buildSegments_contiguous_cover_witness:
  "sorted_wrt (<) [76 / 5, 30 :: real]
    \<and> list_all (\<lambda>t. 0 < t \<and> t < 701 / 20) [76 / 5, 30 :: real]
    \<and> length (buildSegments [76 / 5, 30] (701 / 20)) = 3
    \<and> sum_list (map (\<lambda>s. seg_end s - seg_start s) (buildSegments [76 / 5, 30] (701 / 20)))
        = 701 / 20
    \<and> seg_end (last (buildSegments [76 / 5, 30] (701 / 20))) = 701 / 20
    \<and> \<bar>sum_list (map seg_duration (buildSegments [76 / 5, 30] (701 / 20))) - 701 / 20\<bar>
        \<le> (701 / 20) / 2 ^ 53 + 3 * (1 / 2 ^ 1075)"
proof -
  have h1: "sorted_wrt (<) [76 / 5, 30 :: real]"
    by simp
  have h2: "\<forall>t\<in>set [76 / 5, 30 :: real]. 0 < t \<and> t < 701 / 20"
    by simp
  have pos: "(0::real) < 701 / 20"
    by simp
  from buildSegments_contiguous_cover [OF h1 h2]
  have "length (buildSegments [76 / 5, 30] (701 / 20)) = length [76 / 5, 30 :: real] + 1"
    and "sum_list (map (\<lambda>s. seg_end s - seg_start s) (buildSegments [76 / 5, 30] (701 / 20)))
        = 701 / 20"
    and "seg_end (last (buildSegments [76 / 5, 30] (701 / 20))) = 701 / 20"
    and "(0::real) < 701 / 20 \<longrightarrow>
          \<bar>sum_list (map seg_duration (buildSegments [76 / 5, 30] (701 / 20))) - 701 / 20\<bar>
            \<le> (701 / 20) / 2 ^ 53 + real (length [76 / 5, 30 :: real] + 1) * (1 / 2 ^ 1075)"
    by blast+
  with h1 pos show ?thesis
    by simp
qed

text \<open>
  Claim C1 as stated fails: one change point at the double 0.6 and the total duration
  the double 1.7. The stored durations are the doubles 0.6 and 1.1; their sum is
  \<open>1.7 + 2^-53\<close>, and added as JavaScript adds them it is \<open>1.7000000000000002 = 1.7 + 2^-52\<close>,
  not the total duration.
\<close>

theorem stored_durations_sum_counterexample:
  "sorted_wrt (<) [toDouble (3 / 5)]
    \<and> 0 < toDouble (3 / 5)
    \<and> toDouble (3 / 5) < toDouble (17 / 10)
    \<and> map seg_duration (buildSegments [toDouble (3 / 5)] (toDouble (17 / 10)))
        = [toDouble (3 / 5), toDouble (11 / 10)]
    \<and> sum_list (map seg_duration (buildSegments [toDouble (3 / 5)] (toDouble (17 / 10))))
        = toDouble (17 / 10) + 1 / 2 ^ 53
    \<and> jsAdd (toDouble (3 / 5)) (toDouble (11 / 10)) = toDouble (17 / 10) + 1 / 2 ^ 52
    \<and> sum_list (map seg_duration (buildSegments [toDouble (3 / 5)] (toDouble (17 / 10))))
        \<noteq> toDouble (17 / 10)"
proof -
  have segs: "map seg_duration (buildSegments [toDouble (3 / 5)] (toDouble (17 / 10)))
        = [toDouble (3 / 5), toDouble (11 / 10)]"
    by (simp add: buildSegments_def allTimestamps_def segmentsOf_Cons2 segmentsOf_single
        jsSub_def double_literals double_eval)
  have add: "jsAdd (toDouble (3 / 5)) (toDouble (11 / 10)) = toDouble (17 / 10) + 1 / 2 ^ 52"
    by (simp add: jsAdd_def double_literals double_eval)
  show ?thesis
    unfolding segs using add by (simp add: double_literals)
qed

section \<open>The duration filter of mergeScenes\<close>

lemma foldl_pushIfValid:
  "foldl (pushIfValid ats m) acc is
     = acc @ filter (\<lambda>s. m \<le> seg_duration s) (map (segmentAt ats) is)"
  by (induction "is" arbitrary: acc) (simp_all add: pushIfValid_def Let_def)

lemma validSegments_filter:
  "validSegments ats m = filter (\<lambda>s. m \<le> seg_duration s) (segmentsOf ats)"
  by (simp add: validSegments_def segmentsOf_def foldl_pushIfValid)

text \<open>
  Claim C2. The filter loop of mergeScenes keeps, in their order, exactly the segments
  whose duration is at least \<open>minDuration\<close>: the result is a subsequence of the derived
  segments, every kept segment is long enough, every segment that is long enough is
  kept, and nothing is merged or changed (the result is the plain filter of the input).
\<close>

theorem validSegments_subsequence:
  "subseq (validSegments ats minDuration) (segmentsOf ats)
    \<and> (\<forall>s\<in>set (validSegments ats minDuration). seg_duration s \<ge> minDuration)
    \<and> (\<forall>s\<in>set (segmentsOf ats).
          seg_duration s \<ge> minDuration \<longrightarrow> s \<in> set (validSegments ats minDuration))
    \<and> validSegments ats minDuration
        = filter (\<lambda>s. seg_duration s \<ge> minDuration) (segmentsOf ats)"
  by (simp add: validSegments_filter)

theorem validSegments_subsequence_witness:
  "validSegments [0, 1, 5, 6, 10] 3
     = [\<lparr>seg_start = 1, seg_end = 5, seg_duration = 4\<rparr>,
        \<lparr>seg_start = 6, seg_end = 10, seg_duration = 4\<rparr>]
   \<and> subseq (validSegments [0, 1, 5, 6, 10] 3) (segmentsOf [0, 1, 5, 6, 10])
   \<and> \<lparr>seg_start = 1, seg_end = 5, seg_duration = 4\<rparr> \<in> set (segmentsOf [0, 1, 5, 6, 10])"
proof -
  have segs: "segmentsOf [0, 1, 5, 6, 10]
      = [\<lparr>seg_start = 0, seg_end = 1, seg_duration = 1\<rparr>,
         \<lparr>seg_start = 1, seg_end = 5, seg_duration = 4\<rparr>,
         \<lparr>seg_start = 5, seg_end = 6, seg_duration = 1\<rparr>,
         \<lparr>seg_start = 6, seg_end = 10, seg_duration = 4\<rparr>]"
    by (simp add: segmentsOf_Cons2 segmentsOf_single jsSub_def double_eval)
  show ?thesis
    using validSegments_subsequence [of "[0, 1, 5, 6, 10]" 3] segs by simp
qed

section \<open>The complement of the silences\<close>

text \<open>
  Claim C4. A silence from 10 s to the double 10.4 s, as detectSilence pairs it, with
  the padding 0.3 s and a total duration of 20 s: the list is time-ordered and disjoint
  and the padding is not negative, yet the first keep interval ends at
  \<open>min (10 + 0.3, 10.4) = 10.3\<close> and the next one starts at \<open>max (10.4 - 0.3, 10) = 10.1\<close>,
  before that end. The keep intervals overlap on \<open>[10.1, 10.3]\<close>, and their durations,
  10.3 s and 9.9 s, add up to more than the 20 s of the video.
\<close>

theorem crossing_paddings_overlap:
  "pairSilences [10] [toDouble (52 / 5)]
     = [\<lparr>sil_start = 10, sil_end = Some (toDouble (52 / 5)),
         sil_duration = Some (jsSub (toDouble (52 / 5)) 10)\<rparr>]
    \<and> silencesOrdered (pairSilences [10] [toDouble (52 / 5)])
    \<and> 0 \<le> toDouble (3 / 10)
    \<and> audioSegments (pairSilences [10] [toDouble (52 / 5)]) 20 (toDouble (3 / 10))
       = [\<lparr>seg_start = 0, seg_end = toDouble (103 / 10), seg_duration = toDouble (103 / 10)\<rparr>,
          \<lparr>seg_start = toDouble (101 / 10), seg_end = 20, seg_duration = toDouble (99 / 10)\<rparr>]
    \<and> toDouble (101 / 10) < toDouble (103 / 10)
    \<and> 20 < toDouble (103 / 10) + toDouble (99 / 10)
    \<and> \<not> keepsChained
          (audioSegments (pairSilences [10] [toDouble (52 / 5)]) 20 (toDouble (3 / 10)))"
  by (simp add: pairSilences_def silenceAt_def silencesOrdered_def closedSilence_def
      toNumber_def audioSegments_def keepStep_def keepsChained_def jsAdd_def jsSub_def
      double_eval)

text \<open>
  Claim C5. detectSilence pairs a \<open>silence_start\<close> at 5 s with no \<open>silence_end\<close> into an
  interval whose end is \<open>null\<close>. On it (total duration 10 s, padding the double 0.1 s)
  the walk of removeSilence computes with the \<open>null\<close> as \<open>0\<close>: the first keep interval
  gets the end 0, and the cursor stays at 5 s, so the whole trailing silence from 5 s to
  10 s is kept. With the interval closed at the total duration the keep intervals are
  \<open>[0, 5.1]\<close> and \<open>[9.9, 10]\<close>; the two results differ.
\<close>

theorem open_ended_silence_not_closed_at_total:
  "pairSilences [5] [] = [\<lparr>sil_start = 5, sil_end = None, sil_duration = None\<rparr>]
    \<and> audioSegments (pairSilences [5] []) 10 (toDouble (1 / 10))
       = [\<lparr>seg_start = 0, seg_end = 0, seg_duration = toDouble (51 / 10)\<rparr>,
          \<lparr>seg_start = 5, seg_end = 10, seg_duration = 5\<rparr>]
    \<and> audioSegments [\<lparr>sil_start = 5, sil_end = Some 10, sil_duration = Some 5\<rparr>] 10
         (toDouble (1 / 10))
       = [\<lparr>seg_start = 0, seg_end = toDouble (51 / 10), seg_duration = toDouble (51 / 10)\<rparr>,
          \<lparr>seg_start = toDouble (99 / 10), seg_end = 10,
            seg_duration = jsSub 10 (toDouble (99 / 10))\<rparr>]
    \<and> audioSegments (pairSilences [5] []) 10 (toDouble (1 / 10))
       \<noteq> audioSegments [\<lparr>sil_start = 5, sil_end = Some 10, sil_duration = Some 5\<rparr>] 10
           (toDouble (1 / 10))"
  by (simp add: pairSilences_def silenceAt_def audioSegments_def keepStep_def toNumber_def
      jsAdd_def jsSub_def double_eval)

text \<open>
  Claim C6. A silence from 10 s to the double 10.4 s with the padding 0.5 s and a total
  duration of 20 s: the first keep interval is stored with start 0, its end clamped to
  the end of the silence, 10.4, and the duration \<open>10 - 0 + 0.5 = 10.5\<close> without the clamp.
  The stored duration is not \<open>end - start\<close>, neither exactly nor as JavaScript subtracts.
\<close>

theorem clamped_end_unclamped_duration:
  "(0::real) \<le> 1 / 2
    \<and> hd (audioSegments (pairSilences [10] [toDouble (52 / 5)]) 20 (1 / 2))
       = \<lparr>seg_start = 0, seg_end = toDouble (52 / 5), seg_duration = 21 / 2\<rparr>
    \<and> seg_duration (hd (audioSegments (pairSilences [10] [toDouble (52 / 5)]) 20 (1 / 2)))
       \<noteq> seg_end (hd (audioSegments (pairSilences [10] [toDouble (52 / 5)]) 20 (1 / 2)))
         - seg_start (hd (audioSegments (pairSilences [10] [toDouble (52 / 5)]) 20 (1 / 2)))
    \<and> seg_duration (hd (audioSegments (pairSilences [10] [toDouble (52 / 5)]) 20 (1 / 2)))
       \<noteq> jsSub
           (seg_end (hd (audioSegments (pairSilences [10] [toDouble (52 / 5)]) 20 (1 / 2))))
           (seg_start (hd (audioSegments (pairSilences [10] [toDouble (52 / 5)]) 20 (1 / 2))))"
  by (simp add: pairSilences_def silenceAt_def audioSegments_def keepStep_def toNumber_def
      jsAdd_def jsSub_def double_eval)

section \<open>The best thumbnail frame\<close>

lemma sampleFrames_timestamps:
  "map timestamp (sampleFrames D candidates qualityFn)
     = map (candidateTime D candidates) [0..<candidates]"
  by (simp add: sampleFrames_def candidateTime_def Let_def o_def)

lemma sampleFrames_length: "length (sampleFrames D candidates qualityFn) = candidates"
  by (simp add: sampleFrames_def Let_def)

lemma sampleFrames_member:
  assumes "f \<in> set (sampleFrames D candidates qualityFn)"
  shows "\<exists>i<candidates. timestamp f = candidateTime D candidates i"
proof -
  from assms have "timestamp f \<in> set (map timestamp (sampleFrames D candidates qualityFn))"
    by simp
  then show ?thesis
    unfolding sampleFrames_timestamps by auto
qed

lemma sampleFrames_hd:
  assumes "0 < candidates"
  shows "timestamp (hd (sampleFrames D candidates qualityFn)) = candidateTime D candidates 0"
proof -
  from assms have "[0..<candidates] = 0 # [1..<candidates]"
    by (simp add: upt_conv_Cons)
  then show ?thesis
    by (simp add: sampleFrames_def candidateTime_def Let_def)
qed

lemma candidateTime_in_window:
  assumes "0 \<le> D" and "i < candidates"
  shows "(1 / 10) * D \<le> candidateTime D candidates i"
    and "candidateTime D candidates i \<le> (9 / 10) * D"
proof -
  define x where "x = (9 / 10) * D - (1 / 10) * D"
  have x0: "0 \<le> x"
    using assms(1) by (simp add: x_def)
  from assms(2) have n0: "0 < real candidates" and le: "real i \<le> real candidates"
    by simp_all
  have eq: "real i * (x / real candidates) = x * (real i / real candidates)"
    by simp
  have "real i / real candidates \<le> 1"
    using n0 le by simp
  then have "x * (real i / real candidates) \<le> x"
    using x0 by (rule mult_left_le)
  then have up: "real i * (x / real candidates) \<le> x"
    by (simp only: eq)
  have lo: "0 \<le> real i * (x / real candidates)"
    using x0 by simp
  show "(1 / 10) * D \<le> candidateTime D candidates i"
    using lo by (simp add: candidateTime_def x_def)
  show "candidateTime D candidates i \<le> (9 / 10) * D"
    using up by (simp add: candidateTime_def x_def)
qed

lemma sorted_map_const: "sorted (map (\<lambda>x. k) xs)"
  by (induction xs) auto

lemma sortByScore_constant:
  assumes "\<forall>f\<in>set frames. score f = c"
  shows "sortByScore frames = frames"
proof -
  from assms have eq: "map (\<lambda>f. - score f) frames = map (\<lambda>f. - c) frames"
    by simp
  have "sorted (map (\<lambda>f. - c) frames)"
    by (rule sorted_map_const)
  then have "sorted (map (\<lambda>f. - score f) frames)"
    by (simp only: eq)
  then show ?thesis
    unfolding sortByScore_def by (rule sort_key_id_if_sorted)
qed

text \<open>
  Claim C8. With at least one candidate and a quality function that gives every
  timestamp the same score, findBestThumbnailFrame returns the first sampled timestamp,
  \<open>0.1 * D + 0 * interval = D / 10\<close>: the stable sort leaves the frames in sampling
  order. This holds for every duration, positive or not.
\<close>

theorem constant_quality_returns_first_candidate:
  assumes "0 < candidates"
    and "\<forall>t. qualityFn t = c"
  shows "findBestThumbnailFrame D candidates qualityFn
           = Inr (timestamp (hd (sampleFrames D candidates qualityFn)))
    \<and> findBestThumbnailFrame D candidates qualityFn = Inr (candidateTime D candidates 0)
    \<and> candidateTime D candidates 0 = D / 10"
proof -
  let ?frames = "sampleFrames D candidates qualityFn"
  have "\<forall>f\<in>set ?frames. score f = c"
    using assms(2) by (auto simp: sampleFrames_def Let_def)
  then have same: "sortByScore ?frames = ?frames"
    by (rule sortByScore_constant)
  have "?frames \<noteq> []"
    using assms(1) sampleFrames_length [of D candidates qualityFn] by auto
  then obtain b rest where fr: "?frames = b # rest"
    by (cases ?frames) auto
  have first: "findBestThumbnailFrame D candidates qualityFn = Inr (timestamp (hd ?frames))"
    unfolding findBestThumbnailFrame_def same by (simp add: fr)
  moreover have "timestamp (hd ?frames) = candidateTime D candidates 0"
    using assms(1) by (rule sampleFrames_hd)
  moreover have "candidateTime D candidates 0 = D / 10"
    by (simp add: candidateTime_def)
  ultimately show ?thesis
    by simp
qed

theorem constant_quality_returns_first_candidate_witness:
  "(0::nat) < 10 \<and> (\<forall>t::real. (\<lambda>t. 50 :: real) t = 50)
    \<and> findBestThumbnailFrame 100 10 (\<lambda>t. 50) = Inr 10"
proof -
  have h1: "(0::nat) < 10"
    by simp
  have h2: "\<forall>t::real. (\<lambda>t. 50 :: real) t = 50"
    by simp
  from constant_quality_returns_first_candidate [OF h1 h2, of 100]
  have "findBestThumbnailFrame 100 10 (\<lambda>t. 50) = Inr (candidateTime 100 10 0)"
    and "candidateTime 100 10 0 = 100 / 10"
    by blast+
  then have "findBestThumbnailFrame 100 10 (\<lambda>t. 50) = Inr 10"
    by simp
  with h1 h2 show ?thesis
    by blast
qed

text \<open>
  Claim C9. For a positive duration and at least one candidate, whatever the quality
  function, findBestThumbnailFrame returns one of the sampled timestamps
  \<open>0.1 * D + i * ((0.9 * D - 0.1 * D) / candidates)\<close> with \<open>i < candidates\<close>, and that
  timestamp lies in \<open>[0.1 * D, 0.9 * D]\<close>; the sampled timestamps are exactly these.
\<close>

theorem best_frame_inside_window:
  assumes "0 < D"
    and "0 < candidates"
  shows "(\<exists>i<candidates.
            findBestThumbnailFrame D candidates qualityFn = Inr (candidateTime D candidates i)
            \<and> (1 / 10) * D \<le> candidateTime D candidates i
            \<and> candidateTime D candidates i \<le> (9 / 10) * D)
    \<and> map timestamp (sampleFrames D candidates qualityFn)
         = map (candidateTime D candidates) [0..<candidates]"
proof -
  let ?frames = "sampleFrames D candidates qualityFn"
  have "length (sortByScore ?frames) = candidates"
    by (simp add: sortByScore_def sampleFrames_length)
  with assms(2) obtain b rest where sorted: "sortByScore ?frames = b # rest"
    by (cases "sortByScore ?frames") auto
  have "b \<in> set (sortByScore ?frames)"
    by (simp add: sorted)
  then have "b \<in> set ?frames"
    by (simp add: sortByScore_def)
  then obtain i where i: "i < candidates" and ts: "timestamp b = candidateTime D candidates i"
    using sampleFrames_member by blast
  have res: "findBestThumbnailFrame D candidates qualityFn = Inr (candidateTime D candidates i)"
    by (simp add: findBestThumbnailFrame_def sorted ts)
  from assms(1) have "0 \<le> D"
    by simp
  from candidateTime_in_window [OF this i] res i sampleFrames_timestamps show ?thesis
    by blast
qed

theorem best_frame_inside_window_witness:
  "(0::real) < 100 \<and> (0::nat) < 4
    \<and> findBestThumbnailFrame 100 4 (\<lambda>t. t) = Inr 70
    \<and> (\<exists>i<4. findBestThumbnailFrame 100 4 (\<lambda>t. t) = Inr (candidateTime 100 4 i)
            \<and> (1 / 10) * 100 \<le> candidateTime 100 4 i
            \<and> candidateTime 100 4 i \<le> (9 / 10) * 100)"
proof -
  have h1: "(0::real) < 100"
    by simp
  have h2: "(0::nat) < 4"
    by simp
  have val: "findBestThumbnailFrame 100 4 (\<lambda>t. t) = Inr 70"
    by (simp add: findBestThumbnailFrame_def sortByScore_def sampleFrames_def Let_def
        upt_conv_Cons)
  show ?thesis
    using h1 h2 val best_frame_inside_window [OF h1 h2, of "\<lambda>t. t"] by simp
qed

text \<open>
  The tie-break in general: the frame the sort puts first is a sampled frame with the
  highest score, and it is the earliest such frame in sampling order.
\<close>

lemma sortByScore_first_is_earliest_best:
  assumes "sortByScore frames = b # rest"
  shows "b \<in> set frames"
    and "\<forall>f\<in>set frames. score f \<le> score b"
    and "hd (filter (\<lambda>f. score f = score b) frames) = b"
proof -
  have "set (sortByScore frames) = set frames"
    by (simp add: sortByScore_def)
  with assms have mem: "set frames = insert b (set rest)"
    by simp
  then show "b \<in> set frames"
    by simp
  have "sorted (map (\<lambda>f. - score f) (sortByScore frames))"
    by (simp add: sortByScore_def)
  with assms have "\<forall>f\<in>set rest. - score b \<le> - score f"
    by simp
  with mem show "\<forall>f\<in>set frames. score f \<le> score b"
    by auto
  have "filter (\<lambda>f. - score f = - score b) (sortByScore frames)
          = filter (\<lambda>f. - score f = - score b) frames"
    unfolding sortByScore_def by (rule sort_key_stable)
  with assms have "filter (\<lambda>f. score f = score b) frames
          = b # filter (\<lambda>f. score f = score b) rest"
    by simp
  then show "hd (filter (\<lambda>f. score f = score b) frames) = b"
    by simp
qed

section \<open>The workflows\<close>

lemma exec_cases:
  "exec eng cmd w = (r, w') \<Longrightarrow>
     (r = Inr () \<and> fst (ffmpeg eng w cmd)) \<or> (r = Inl (CommandFailed cmd) \<and> \<not> fst (ffmpeg eng w cmd))"
  by (auto simp: exec_def split: prod.splits if_splits)

lemma exec_ok:
  assumes "fst (ffmpeg eng w cmd)"
  shows "exec eng cmd w = (Inr (), \<lparr>files = snd (ffmpeg eng w cmd), calls = calls w + 1\<rparr>)"
  using assms by (cases "ffmpeg eng w cmd") (simp add: exec_def)

lemma getDuration_Some:
  "formatDuration eng w videoPath = Some D \<Longrightarrow>
     getDuration eng videoPath w = (Inr D, w\<lparr>calls := calls w + 1\<rparr>)"
  by (simp add: getDuration_def)

lemma extractLoop_error:
  "extractLoop eng videoPath todo tempFiles w = (Inl e, w') \<Longrightarrow> \<exists>cmd. e = CommandFailed cmd"
proof (induction todo arbitrary: tempFiles w)
  case Nil
  then show ?case by simp
next
  case (Cons p todo)
  obtain i seg where p: "p = (i, seg)"
    by (cases p)
  let ?cmd = "Trim videoPath (seg_start seg) (seg_duration seg) (tempFile i)"
  obtain r w1 where ex: "exec eng ?cmd w = (r, w1)"
    by (cases "exec eng ?cmd w")
  from exec_cases [OF ex] show ?case
  proof
    assume "r = Inr () \<and> fst (ffmpeg eng w ?cmd)"
    with Cons.prems p ex
    have "extractLoop eng videoPath todo (tempFiles @ [tempFile i]) w1 = (Inl e, w')"
      by simp
    then show ?thesis by (rule Cons.IH)
  next
    assume "r = Inl (CommandFailed ?cmd) \<and> \<not> fst (ffmpeg eng w ?cmd)"
    with Cons.prems p ex show ?thesis by auto
  qed
qed

lemma extractLoop_succeeds:
  assumes "\<forall>w cmd. fst (ffmpeg eng w cmd)"
  shows "\<exists>w'. extractLoop eng videoPath todo tempFiles w
            = (Inr (tempFiles @ map (\<lambda>p. tempFile (fst p)) todo), w')"
proof (induction todo arbitrary: tempFiles w)
  case Nil
  show ?case by simp
next
  case (Cons p todo)
  obtain i seg where p: "p = (i, seg)"
    by (cases p)
  let ?cmd = "Trim videoPath (seg_start seg) (seg_duration seg) (tempFile i)"
  from assms have "fst (ffmpeg eng w ?cmd)"
    by blast
  then have ex: "exec eng ?cmd w
      = (Inr (), \<lparr>files = snd (ffmpeg eng w ?cmd), calls = calls w + 1\<rparr>)"
    by (rule exec_ok)
  from Cons.IH [of "tempFiles @ [tempFile i]"
      "\<lparr>files = snd (ffmpeg eng w ?cmd), calls = calls w + 1\<rparr>"]
  show ?case
    by (simp add: p ex)
qed

lemma validSegments_empty_iff:
  "validSegments (allTimestamps timestamps D) minDuration = []
     \<longleftrightarrow> (\<forall>s\<in>set (buildSegments timestamps D). seg_duration s < minDuration)"
  by (auto simp: validSegments_filter buildSegments_def filter_empty_conv not_le)

text \<open>
  Claim C3. Once the duration \<open>D\<close> of the video is known: when every derived segment is
  shorter than \<open>minDuration\<close>, mergeScenes throws the no-valid-segments error, before any
  trim and with no file written; when some segment is long enough it never throws that
  error, and if moreover every external command succeeds it returns the output file.
\<close>

theorem mergeScenes_no_valid_segments:
  assumes "formatDuration eng w videoPath = Some D"
  shows "((\<forall>s\<in>set (buildSegments timestamps D). seg_duration s < minDuration) \<longrightarrow>
            mergeScenes eng videoPath timestamps minDuration outputFile w
              = (Inl NoValidSegments, w\<lparr>calls := calls w + 1\<rparr>))
    \<and> ((\<exists>s\<in>set (buildSegments timestamps D). seg_duration s \<ge> minDuration) \<longrightarrow>
            fst (mergeScenes eng videoPath timestamps minDuration outputFile w)
              \<noteq> Inl NoValidSegments
          \<and> ((\<forall>w' cmd. fst (ffmpeg eng w' cmd)) \<longrightarrow>
                fst (mergeScenes eng videoPath timestamps minDuration outputFile w)
                  = Inr outputFile))"
proof -
  let ?valid = "validSegments (allTimestamps timestamps D) minDuration"
  let ?w1 = "w\<lparr>calls := calls w + 1\<rparr>"
  note dur = getDuration_Some [OF assms]
  have none: "mergeScenes eng videoPath timestamps minDuration outputFile w
              = (Inl NoValidSegments, ?w1)"
    if "\<forall>s\<in>set (buildSegments timestamps D). seg_duration s < minDuration"
  proof -
    from that have "?valid = []"
      by (simp only: validSegments_empty_iff)
    then show ?thesis
      by (simp add: mergeScenes_def dur)
  qed
  have some: "fst (mergeScenes eng videoPath timestamps minDuration outputFile w)
              \<noteq> Inl NoValidSegments"
    if "\<exists>s\<in>set (buildSegments timestamps D). seg_duration s \<ge> minDuration"
  proof -
    from that have ne: "?valid \<noteq> []"
      unfolding validSegments_empty_iff by (auto simp: not_less)
    obtain r w2 where loop: "extractLoop eng videoPath (enumerate 0 ?valid) [] ?w1 = (r, w2)"
      by (cases "extractLoop eng videoPath (enumerate 0 ?valid) [] ?w1")
    show ?thesis
    proof (cases r)
      case (Inl e)
      with loop extractLoop_error obtain cmd where "e = CommandFailed cmd"
        by blast
      with Inl loop ne show ?thesis
        by (simp add: mergeScenes_def dur)
    next
      case (Inr tempFiles)
      obtain r3 w3 where cc: "exec eng (Concat mergeList outputFile) (writeFile w2 mergeList)
          = (r3, w3)"
        by (cases "exec eng (Concat mergeList outputFile) (writeFile w2 mergeList)")
      from exec_cases [OF cc] Inr loop ne cc show ?thesis
        by (auto simp: mergeScenes_def dur)
    qed
  qed
  have ok: "fst (mergeScenes eng videoPath timestamps minDuration outputFile w) = Inr outputFile"
    if "\<exists>s\<in>set (buildSegments timestamps D). seg_duration s \<ge> minDuration"
      and good: "\<forall>w' cmd. fst (ffmpeg eng w' cmd)"
  proof -
    from that(1) have ne: "?valid \<noteq> []"
      unfolding validSegments_empty_iff by (auto simp: not_less)
    from extractLoop_succeeds [OF good, of videoPath "enumerate 0 ?valid" "[]" ?w1]
    obtain w2 tempFiles where
      loop: "extractLoop eng videoPath (enumerate 0 ?valid) [] ?w1 = (Inr tempFiles, w2)"
      by blast
    from good have "fst (ffmpeg eng (writeFile w2 mergeList) (Concat mergeList outputFile))"
      by blast
    from exec_ok [OF this] loop ne show ?thesis
      by (simp add: mergeScenes_def dur)
  qed
  from none some ok show ?thesis
    by blast
qed

text \<open>The stand-in engine on the 35.05 s video: the values the statements below use.\<close>

lemma decimal_values:
  "decimal 0 = ''0''"
  "decimal (Suc 0) = ''1''"
  "decimal (Suc (Suc 0)) = ''2''"
  "decimal (Suc (Suc (Suc 0))) = ''3''"
  by (simp_all add: decimal.simps)

lemma tempFile_values:
  "tempFile 0 = ''temp_scene_0.mp4''"
  "tempFile (Suc 0) = ''temp_scene_1.mp4''"
  "tempFile (Suc (Suc 0)) = ''temp_scene_2.mp4''"
  by (simp_all add: tempFile_def decimal_values)

lemma demo_buildSegments:
  "buildSegments [76 / 5, 30] (701 / 20)
     = [\<lparr>seg_start = 0, seg_end = 76 / 5, seg_duration = toDouble (76 / 5)\<rparr>,
        \<lparr>seg_start = 76 / 5, seg_end = 30, seg_duration = toDouble (74 / 5)\<rparr>,
        \<lparr>seg_start = 30, seg_end = 701 / 20, seg_duration = toDouble (101 / 20)\<rparr>]"
  by (simp add: buildSegments_def allTimestamps_def segmentsOf_Cons2 segmentsOf_single
      jsSub_def)

lemma demo_durations:
  "3 \<le> toDouble (76 / 5)" "3 \<le> toDouble (74 / 5)" "3 \<le> toDouble (101 / 20)"
  "toDouble (76 / 5) < 40" "toDouble (74 / 5) < 40" "toDouble (101 / 20) < 40"
  by (simp_all add: double_eval)

lemma demo_validSegments:
  "validSegments [0, 76 / 5, 30, 701 / 20] 3
     = [\<lparr>seg_start = 0, seg_end = 76 / 5, seg_duration = toDouble (76 / 5)\<rparr>,
        \<lparr>seg_start = 76 / 5, seg_end = 30, seg_duration = toDouble (74 / 5)\<rparr>,
        \<lparr>seg_start = 30, seg_end = 701 / 20, seg_duration = toDouble (101 / 20)\<rparr>]"
  using demo_buildSegments
  by (simp add: validSegments_filter buildSegments_def allTimestamps_def demo_durations)

theorem mergeScenes_no_valid_segments_witness:
  "formatDuration demoEngine demoWorld ''video.mp4'' = Some (701 / 20)
    \<and> list_all (\<lambda>s. seg_duration s < 40) (buildSegments [76 / 5, 30] (701 / 20))
    \<and> mergeScenes demoEngine ''video.mp4'' [76 / 5, 30] 40 ''out.mp4'' demoWorld
        = (Inl NoValidSegments, demoWorld\<lparr>calls := calls demoWorld + 1\<rparr>)
    \<and> (\<exists>s\<in>set (buildSegments [76 / 5, 30] (701 / 20)). seg_duration s \<ge> 3)
    \<and> (\<forall>w' cmd. fst (ffmpeg demoEngine w' cmd))
    \<and> fst (mergeScenes demoEngine ''video.mp4'' [76 / 5, 30] 3 ''out.mp4'' demoWorld)
        = Inr ''out.mp4''"
proof -
  have h: "formatDuration demoEngine demoWorld ''video.mp4'' = Some (701 / 20)"
    by (simp add: demoEngine_def)
  have short: "\<forall>s\<in>set (buildSegments [76 / 5, 30] (701 / 20)). seg_duration s < 40"
    by (simp add: demo_buildSegments demo_durations)
  have long: "\<exists>s\<in>set (buildSegments [76 / 5, 30] (701 / 20)). seg_duration s \<ge> 3"
    by (simp add: demo_buildSegments demo_durations)
  have good: "\<forall>w' cmd. fst (ffmpeg demoEngine w' cmd)"
    by (simp add: demoEngine_def)
  from mergeScenes_no_valid_segments [OF h, of "[76 / 5, 30]" 40 "''out.mp4''"] short
  have r1: "mergeScenes demoEngine ''video.mp4'' [76 / 5, 30] 40 ''out.mp4'' demoWorld
        = (Inl NoValidSegments, demoWorld\<lparr>calls := calls demoWorld + 1\<rparr>)"
    by blast
  from mergeScenes_no_valid_segments [OF h, of "[76 / 5, 30]" 3 "''out.mp4''"] long good
  have r2: "fst (mergeScenes demoEngine ''video.mp4'' [76 / 5, 30] 3 ''out.mp4'' demoWorld)
        = Inr ''out.mp4''"
    by blast
  have short': "list_all (\<lambda>s. seg_duration s < 40) (buildSegments [76 / 5, 30] (701 / 20))"
    by (simp add: demo_buildSegments demo_durations)
  from h short' r1 long good r2 show ?thesis
    by blast
qed

lemma files_unlink_all: "files (foldl unlinkIfExists w fs) = files w - set fs"
  by (induction fs arbitrary: w) (auto simp: unlinkIfExists_def)

lemma extractLoop_result:
  "extractLoop eng videoPath todo tempFiles w = (Inr res, w') \<Longrightarrow>
     res = tempFiles @ map (\<lambda>p. tempFile (fst p)) todo"
proof (induction todo arbitrary: tempFiles w)
  case Nil
  then show ?case by simp
next
  case (Cons p todo)
  obtain i seg where p: "p = (i, seg)"
    by (cases p)
  let ?cmd = "Trim videoPath (seg_start seg) (seg_duration seg) (tempFile i)"
  obtain r w1 where ex: "exec eng ?cmd w = (r, w1)"
    by (cases "exec eng ?cmd w")
  from exec_cases [OF ex] show ?case
  proof
    assume "r = Inr () \<and> fst (ffmpeg eng w ?cmd)"
    with Cons.prems p ex
    have "extractLoop eng videoPath todo (tempFiles @ [tempFile i]) w1 = (Inr res, w')"
      by simp
    from Cons.IH [OF this] p show ?thesis by simp
  next
    assume "r = Inl (CommandFailed ?cmd) \<and> \<not> fst (ffmpeg eng w ?cmd)"
    with Cons.prems p ex show ?thesis by auto
  qed
qed

text \<open>
  When mergeScenes returns, its cleanup has run: neither the manifest nor any of the
  temporary scene files it named is left.
\<close>

lemma mergeScenes_success_cleanup:
  assumes "formatDuration eng w videoPath = Some D"
    and "mergeScenes eng videoPath timestamps minDuration outputFile w = (Inr r, w')"
  shows "mergeList \<notin> files w'
    \<and> (\<forall>i<length (validSegments (allTimestamps timestamps D) minDuration).
          tempFile i \<notin> files w')"
proof -
  let ?valid = "validSegments (allTimestamps timestamps D) minDuration"
  let ?w1 = "w\<lparr>calls := calls w + 1\<rparr>"
  note dur = getDuration_Some [OF assms(1)]
  from assms(2) have ne: "?valid \<noteq> []"
    by (auto simp: mergeScenes_def dur Let_def)
  obtain r2 w2 where loop: "extractLoop eng videoPath (enumerate 0 ?valid) [] ?w1 = (r2, w2)"
    by (cases "extractLoop eng videoPath (enumerate 0 ?valid) [] ?w1")
  from assms(2) ne loop obtain tempFiles where r2: "r2 = Inr tempFiles"
    by (cases r2) (auto simp: mergeScenes_def dur Let_def)
  from extractLoop_result loop r2
  have "tempFiles = map (\<lambda>p. tempFile (fst p)) (enumerate 0 ?valid)"
    by fastforce
  also have "\<dots> = map tempFile [0..<length ?valid]"
    by (rule nth_equalityI) (simp_all add: nth_enumerate_eq)
  finally have tf: "tempFiles = map tempFile [0..<length ?valid]" .
  obtain r3 w3 where cc: "exec eng (Concat mergeList outputFile) (writeFile w2 mergeList)
      = (r3, w3)"
    by (cases "exec eng (Concat mergeList outputFile) (writeFile w2 mergeList)")
  from assms(2) ne loop r2 cc
  have w': "w' = unlinkIfExists (foldl unlinkIfExists w3 tempFiles) mergeList"
    by (cases r3) (auto simp: mergeScenes_def dur Let_def)
  have "files w' = files w3 - set tempFiles - {mergeList}"
    unfolding w' by (auto simp: unlinkIfExists_def files_unlink_all)
  then show ?thesis
    by (auto simp: tf)
qed

text \<open>
  Claim C7. The trims succeed and leave their temporary files, the manifest is written,
  and the concat step exits non-zero: mergeScenes throws the command failure from
  \<open>exec\<close> and never reaches its cleanup, so \<open>temp_scene_0.mp4\<close>, \<open>temp_scene_1.mp4\<close>,
  \<open>temp_scene_2.mp4\<close> and \<open>merge_list.txt\<close> are still there afterwards.
\<close>

theorem mergeScenes_failed_concat_leaves_temporaries:
  "mergeScenes brokenConcat ''video.mp4'' [76 / 5, 30] 3 ''out.mp4'' demoWorld
     = (Inl (CommandFailed (Concat ''merge_list.txt'' ''out.mp4'')),
        \<lparr>files = {''merge_list.txt'', ''temp_scene_2.mp4'', ''temp_scene_1.mp4'',
                   ''temp_scene_0.mp4'', ''video.mp4''},
         calls = 5\<rparr>)
    \<and> tempFile 0 \<in> files (snd (mergeScenes brokenConcat ''video.mp4'' [76 / 5, 30] 3
                                  ''out.mp4'' demoWorld))
    \<and> mergeList \<in> files (snd (mergeScenes brokenConcat ''video.mp4'' [76 / 5, 30] 3
                                  ''out.mp4'' demoWorld))"
proof -
  have run: "mergeScenes brokenConcat ''video.mp4'' [76 / 5, 30] 3 ''out.mp4'' demoWorld
     = (Inl (CommandFailed (Concat ''merge_list.txt'' ''out.mp4'')),
        \<lparr>files = {''merge_list.txt'', ''temp_scene_2.mp4'', ''temp_scene_1.mp4'',
                   ''temp_scene_0.mp4'', ''video.mp4''},
         calls = 5\<rparr>)"
    by (simp add: mergeScenes_def getDuration_def brokenConcat_def demoEngine_def
        demoWorld_def allTimestamps_def demo_validSegments tempFile_values exec_def
        writeFile_def mergeList_def outputOf_def Let_def insert_commute)
  show ?thesis
    unfolding run by (simp add: tempFile_values mergeList_def)
qed

lemma splitLoop_length:
  "splitLoop eng videoPath outputDir ats todo outputs w = (Inr res, w') \<Longrightarrow>
     length res = length outputs + length todo"
proof (induction todo arbitrary: outputs w)
  case Nil
  then show ?case by simp
next
  case (Cons i todo)
  let ?out = "clipPath eng outputDir videoPath (i + 1)"
  let ?cmd = "Trim videoPath (seg_start (segmentAt ats i)) (seg_duration (segmentAt ats i)) ?out"
  obtain r w1 where ex: "exec eng ?cmd w = (r, w1)"
    by (cases "exec eng ?cmd w")
  from exec_cases [OF ex] show ?case
  proof
    assume "r = Inr () \<and> fst (ffmpeg eng w ?cmd)"
    with Cons.prems ex
    have "splitLoop eng videoPath outputDir ats todo (outputs @ [?out]) w1 = (Inr res, w')"
      by (simp add: Let_def)
    from Cons.IH [OF this] show ?thesis by simp
  next
    assume "r = Inl (CommandFailed ?cmd) \<and> \<not> fst (ffmpeg eng w ?cmd)"
    with Cons.prems ex show ?thesis by (simp add: Let_def)
  qed
qed

lemma splitByScenes_length:
  assumes "splitByScenes eng videoPath timestamps outputDir w = (Inr clips, w')"
  shows "length clips = length timestamps + 1"
proof -
  define w0 where "w0 = (if outputDir \<notin> files w then w\<lparr>files := insert outputDir (files w)\<rparr> else w)"
  obtain r1 w1 where dur: "getDuration eng videoPath w0 = (r1, w1)"
    by (cases "getDuration eng videoPath w0")
  from assms dur obtain duration where r1: "r1 = Inr duration"
    by (cases r1) (auto simp: splitByScenes_def Let_def w0_def)
  from assms dur r1
  have "splitLoop eng videoPath outputDir (allTimestamps timestamps duration)
          (loopIndices (allTimestamps timestamps duration)) [] w1 = (Inr clips, w')"
    by (simp add: splitByScenes_def Let_def w0_def)
  from splitLoop_length [OF this] show ?thesis
    by (simp add: loopIndices_def allTimestamps_def)
qed

text \<open>
  Claim C10. Whenever autoEdit returns a result, the number of clips it reports is the
  number of scene changes it reports plus one (one clip when no scene change was found
  at either threshold), and the reported count is the length of the reported timestamps.
\<close>

theorem autoEdit_clips_one_more_than_scenes:
  assumes "fst (autoEdit eng videoPath minDuration threshold w) = Inr r"
  shows "clipsCreated r = scenesDetected r + 1
    \<and> scenesDetected r = length (sceneTimestamps r)"
proof -
  obtain r1 w1 where s1: "getDuration eng videoPath w = (r1, w1)"
    by (cases "getDuration eng videoPath w")
  from assms s1 obtain duration where r1: "r1 = Inr duration"
    by (cases r1) (auto simp: autoEdit_def)
  obtain r2 w2 where s2: "detectScenes eng videoPath threshold w1 = (r2, w2)"
    by (cases "detectScenes eng videoPath threshold w1")
  from assms s1 r1 s2 obtain found where r2: "r2 = Inr found"
    by (cases r2) (auto simp: autoEdit_def)
  obtain r3 w3 where s3: "(if length found = 0 then detectScenes eng videoPath (15 / 100) w2
            else (Inr found, w2)) = (r3, w3)"
    by (cases "if length found = 0 then detectScenes eng videoPath (15 / 100) w2
            else (Inr found, w2)")
  from assms s1 r1 s2 r2 s3 obtain timestamps where r3: "r3 = Inr timestamps"
    by (cases r3) (auto simp: autoEdit_def)
  obtain r4 w4 where s4: "splitByScenes eng videoPath timestamps ''auto_scenes'' w3 = (r4, w4)"
    by (cases "splitByScenes eng videoPath timestamps ''auto_scenes'' w3")
  from assms s1 r1 s2 r2 s3 r3 s4 obtain clips where r4: "r4 = Inr clips"
    by (cases r4) (auto simp: autoEdit_def)
  obtain r5 w5 where
    s5: "mergeScenes eng videoPath timestamps minDuration ''auto_merged.mp4'' w4 = (r5, w5)"
    by (cases "mergeScenes eng videoPath timestamps minDuration ''auto_merged.mp4'' w4")
  from assms s1 r1 s2 r2 s3 r3 s4 r4 s5 obtain finalFile where r5: "r5 = Inr finalFile"
    by (cases r5) (auto simp: autoEdit_def)
  from assms s1 r1 s2 r2 s3 r3 s4 r4 s5 r5
  have r: "r = \<lparr>originalDuration = duration, scenesDetected = length timestamps,
                clipsCreated = length clips, clipsPath = ''auto_scenes'',
                mergedFile = finalFile, sceneTimestamps = timestamps\<rparr>"
    by (simp add: autoEdit_def)
  from s4 r4 have "length clips = length timestamps + 1"
    by (simp add: splitByScenes_length)
  with r show ?thesis
    by simp
qed

theorem autoEdit_clips_one_more_than_scenes_witness:
  "fst (autoEdit demoEngine ''video.mp4'' 3 (3 / 10) demoWorld)
     = Inr \<lparr>originalDuration = 701 / 20, scenesDetected = 2, clipsCreated = 3,
            clipsPath = ''auto_scenes'', mergedFile = ''auto_merged.mp4'',
            sceneTimestamps = [76 / 5, 30]\<rparr>
    \<and> clipsCreated \<lparr>originalDuration = 701 / 20, scenesDetected = 2, clipsCreated = 3,
            clipsPath = ''auto_scenes'', mergedFile = ''auto_merged.mp4'',
            sceneTimestamps = [76 / 5, 30]\<rparr>
        = scenesDetected \<lparr>originalDuration = 701 / 20, scenesDetected = 2, clipsCreated = 3,
            clipsPath = ''auto_scenes'', mergedFile = ''auto_merged.mp4'',
            sceneTimestamps = [76 / 5, 30]\<rparr> + 1"
proof -
  have h: "fst (autoEdit demoEngine ''video.mp4'' 3 (3 / 10) demoWorld)
     = Inr \<lparr>originalDuration = 701 / 20, scenesDetected = 2, clipsCreated = 3,
            clipsPath = ''auto_scenes'', mergedFile = ''auto_merged.mp4'',
            sceneTimestamps = [76 / 5, 30]\<rparr>"
    by (simp add: autoEdit_def splitByScenes_def detectScenes_def mergeScenes_def
        getDuration_def demoEngine_def demoWorld_def demo_validSegments tempFile_values
        exec_def writeFile_def mergeList_def outputOf_def unlinkIfExists_def Let_def
        insert_Diff_if allTimestamps_def loopIndices_def segmentAt_def decimal_values
        upt_conv_Cons)
  from autoEdit_clips_one_more_than_scenes [OF h] h show ?thesis
    by blast
qed

end
